theory Spec2Isabelle
  imports Complex_Main "HOL-Library.Multiset" "HOL-Library.Word" "HOL-Library.Log_Nat"
begin

section \<open>Data model\<close>

text \<open>
  The solver \<open>solveOptimalWithFixed(jobsMinutes, teamCount, quant)\<close> works on plain
  objects. An output job is \<open>{name, minutes}\<close>; an input job adds \<open>fixedTeam\<close>; a free
  item of the search adds the quantized weight \<open>w\<close>. Durations, team numbers and weights
  are JavaScript numbers holding integers and are modelled as \<open>int\<close>; \<open>teamCount\<close> is an
  array length and is modelled as \<open>nat\<close>. A JavaScript number is a binary64 value: where
  the code adds durations (\<open>fixedLoads[idx] += job.minutes\<close>,
  \<open>totalMinutes += item.minutes\<close>) or divides them by the quantum, the model rounds as
  binary64 arithmetic does (\<open>dadd\<close>, \<open>round_div\<close> below). The loads of the search are
  sums of quantized weights and are added as integers.
\<close>

record entry =
  name :: string
  minutes :: int

record job = entry +
  fixedTeam :: int

record item = entry +
  w :: int

record team =
  jobs :: "entry list"
  totalMinutes :: int

datatype error = TypeError

definition entry_of :: "'a entry_scheme \<Rightarrow> entry" where
  "entry_of x = \<lparr>name = name x, minutes = minutes x\<rparr>"

section \<open>Binary64 arithmetic on integers\<close>

text \<open>\<open>n / d\<close> rounded to the nearest integer, ties to the even one (\<open>d > 0\<close>).\<close>

definition rne_div :: "int \<Rightarrow> int \<Rightarrow> int" where
  "rne_div n d =
     (let qo = n div d; r = n mod d in
      if 2 * r < d then qo else if d < 2 * r then qo + 1 else if even qo then qo else qo + 1)"

text \<open>
  The binary64 value nearest to an integer: the integer itself below \<open>2^53\<close>, otherwise
  its 53 leading bits rounded to nearest, ties to even. A result of \<open>2^1024\<close> or more is
  an overflow; the values \<open>2^1024\<close> and \<open>- 2^1024\<close>, which are not finite binary64
  numbers, stand for \<open>Infinity\<close> and \<open>-Infinity\<close>.
\<close>

definition to_double :: "int \<Rightarrow> int" where
  "to_double x =
     (let a = \<bar>x\<bar> in
      if a < 2 ^ 53 then x
      else
        (let e = nat (bitlen a - 53); v = rne_div a (2 ^ e) * 2 ^ e in
         if 2 ^ 1024 \<le> v then sgn x * 2 ^ 1024 else sgn x * v))"

text \<open>
  \<open>acc += b\<close> for a running total \<open>acc\<close> and a finite \<open>b\<close>: an infinite total stays
  infinite, otherwise the sum is rounded to binary64.
\<close>

definition dadd :: "int \<Rightarrow> int \<Rightarrow> int" where
  "dadd acc b = (if 2 ^ 1024 \<le> \<bar>acc\<bar> then acc else to_double (acc + b))"

section \<open>Quantization\<close>

text \<open>\<open>quant | 0\<close> is the conversion to a signed 32-bit integer.\<close>

definition toInt32 :: "int \<Rightarrow> int" where
  "toInt32 x = sint (word_of_int x :: 32 word)"

text \<open>\<open>const q = Math.max(1, quant | 0)\<close>\<close>

definition quantum :: "int \<Rightarrow> int" where
  "quantum quant = max 1 (toInt32 quant)"

text \<open>
  \<open>m / q\<close> is the binary64 value nearest to the quotient. For \<open>a > 0\<close> and \<open>q > 0\<close>,
  \<open>quot_double a q = (s, k)\<close> gives it as \<open>s / 2^k\<close>: \<open>fl\<close> is the binary exponent of
  the quotient, and \<open>s\<close> is the quotient scaled to 53 significant bits and rounded to
  nearest, ties to even.
\<close>

definition quot_double :: "int \<Rightarrow> int \<Rightarrow> int \<times> int" where
  "quot_double a q =
     (let L = bitlen a - bitlen q;
          fl = (if 0 \<le> L then (if q * 2 ^ nat L \<le> a then L else L - 1)
                else (if q \<le> a * 2 ^ nat (- L) then L else L - 1));
          k = 52 - fl
      in if 0 \<le> k then (rne_div (a * 2 ^ nat k) q, k) else (rne_div a (q * 2 ^ nat (- k)), k))"

text \<open>
  \<open>Math.round(m / q)\<close> for an integer \<open>m\<close> and \<open>q \<ge> 1\<close>: the binary64 quotient, then
  the nearest integer, a half rounding towards plus infinity (\<open>\<lfloor>x + 1/2\<rfloor>\<close>, which
  \<open>Math.round\<close> computes without a further rounding error; a binary64 value of
  \<open>2^52\<close> or more is an integer already). An infinite \<open>m\<close> stays infinite.
\<close>

definition round_div :: "int \<Rightarrow> int \<Rightarrow> int" where
  "round_div m q =
     (if m = 0 then 0
      else if 2 ^ 1024 \<le> \<bar>m\<bar> then m
      else
        (case quot_double \<bar>m\<bar> q of (s, k) \<Rightarrow>
           if k \<le> 0 then sgn m * (s * 2 ^ nat (- k))
           else if 0 < m then (2 * s + 2 ^ nat k) div 2 ^ (nat k + 1)
           else (2 ^ nat k - 2 * s) div 2 ^ (nat k + 1)))"

text \<open>\<open>Math.max(...xs)\<close> of a non-empty array.\<close>

definition max_list :: "int list \<Rightarrow> int" where
  "max_list xs = Max (set xs)"

section \<open>Partition into fixed and free jobs\<close>

record parts =
  fixedLoads :: "int list"
  fixedAssign :: "entry list list"
  free :: "job list"

text \<open>\<open>job.fixedTeam && job.fixedTeam >= 1 && job.fixedTeam <= teamCount\<close>\<close>

definition isFixed :: "nat \<Rightarrow> job \<Rightarrow> bool" where
  "isFixed teamCount j \<longleftrightarrow>
     fixedTeam j \<noteq> 0 \<and> 1 \<le> fixedTeam j \<and> fixedTeam j \<le> int teamCount"

definition partition_step :: "nat \<Rightarrow> parts \<Rightarrow> job \<Rightarrow> parts" where
  "partition_step teamCount p j =
     (if isFixed teamCount j then
        (let idx = nat (fixedTeam j - 1) in
         p\<lparr>fixedLoads := (fixedLoads p)[idx := dadd (fixedLoads p ! idx) (minutes j)],
           fixedAssign := (fixedAssign p)[idx := fixedAssign p ! idx @ [entry_of j] ]\<rparr>)
      else p\<lparr>free := free p @ [j]\<rparr>)"

definition partition_jobs :: "nat \<Rightarrow> job list \<Rightarrow> parts" where
  "partition_jobs teamCount js =
     foldl (partition_step teamCount)
       \<lparr>fixedLoads = replicate teamCount 0, fixedAssign = replicate teamCount [], free = []\<rparr> js"

text \<open>
  \<open>baseW\<close>: the rounded fixed minutes of every team, then the loop that lifts a zero
  weight of a team with positive fixed minutes to one.
\<close>

definition baseW_of :: "int \<Rightarrow> int list \<Rightarrow> int list" where
  "baseW_of q fl =
     map (\<lambda>(m, b). if 0 < m \<and> b = 0 then 1 else b) (zip fl (map (\<lambda>m. round_div m q) fl))"

definition mk_item :: "int \<Rightarrow> job \<Rightarrow> item" where
  "mk_item q j = \<lparr>name = name j, minutes = minutes j, w = max 1 (round_div (minutes j) q)\<rparr>"

text \<open>
  \<open>.sort((a, b) => b.w - a.w)\<close>: the array sort is stable, so this is the stable sort
  by descending weight.
\<close>

definition freeItems_of :: "int \<Rightarrow> job list \<Rightarrow> item list" where
  "freeItems_of q fr = sort_key (\<lambda>it. - w it) (map (mk_item q) fr)"

section \<open>Greedy baseline\<close>

text \<open>The inner loop \<open>best = 0; for i in 1..teamCount-1: if (loads0[i] < loads0[best]) best = i\<close>.\<close>

definition leastLoaded :: "int list \<Rightarrow> nat \<Rightarrow> nat" where
  "leastLoaded loads0 teamCount =
     foldl (\<lambda>best i. if loads0 ! i < loads0 ! best then i else best) 0 [1..<teamCount]"

definition greedy_step :: "nat \<Rightarrow> int list \<times> item list list \<Rightarrow> item \<Rightarrow> int list \<times> item list list" where
  "greedy_step teamCount st it =
     (case st of (loads0, assign0) \<Rightarrow>
        (let best = leastLoaded loads0 teamCount in
         (loads0[best := loads0 ! best + w it], assign0[best := assign0 ! best @ [it] ])))"

definition greedy :: "nat \<Rightarrow> int list \<Rightarrow> item list \<Rightarrow> int list \<times> item list list" where
  "greedy teamCount baseW items = foldl (greedy_step teamCount) (baseW, replicate teamCount []) items"

section \<open>Branch-and-bound search\<close>

text \<open>
  The closure variables that \<open>dfs\<close> only reads are collected in \<open>env\<close>; the ones it
  writes (\<open>loads\<close>, \<open>assign\<close>, \<open>bestMakespanW\<close>, \<open>bestAssign\<close>, \<open>seen\<close>) form the
  state \<open>search\<close> that is threaded through the recursion. The memo key
  \<open>idx + "|" + sorted.join(",")\<close> is an injective encoding of the pair of the index and
  the ascending load vector, which is what the model stores.
\<close>

record env =
  freeItems :: "item list"
  teamCount :: nat
  avgLB :: int
  baseMax :: int

record search =
  loads :: "int list"
  assign :: "item list list"
  bestMakespanW :: int
  bestAssign :: "item list list"
  seen :: "(nat \<times> int list) set"

definition key :: "nat \<Rightarrow> int list \<Rightarrow> nat \<times> int list" where
  "key idx ls = (idx, sort ls)"

definition order_of :: "nat \<Rightarrow> int list \<Rightarrow> nat list" where
  "order_of tc ls = sort_key (\<lambda>i. ls ! i) [0..<tc]"

text \<open>
  \<open>dfs\<close> is entered at index 0 and calls itself at \<open>idx + 1\<close> only below \<open>itemCount\<close>,
  so an index above \<open>itemCount\<close> does not occur; the model returns the state unchanged
  there. \<open>branches\<close> is the \<open>for (const i of order)\<close> loop with its set \<open>triedLoads\<close>.
\<close>

function dfs :: "env \<Rightarrow> nat \<Rightarrow> search \<Rightarrow> search"
  and branches :: "env \<Rightarrow> nat \<Rightarrow> nat list \<Rightarrow> int set \<Rightarrow> search \<Rightarrow> search"
where
  "dfs e idx s =
     (if idx = length (freeItems e) then
        (let mk = max_list (loads s) in
         if mk < bestMakespanW s then s\<lparr>bestMakespanW := mk, bestAssign := assign s\<rparr> else s)
      else if length (freeItems e) < idx then s
      else
        (let currentMax = max_list (loads s);
             lb = max (max (avgLB e) (baseMax e)) currentMax in
         if bestMakespanW s \<le> lb then s
         else
           (let k = key idx (loads s) in
            if k \<in> seen s then s
            else branches e idx (order_of (teamCount e) (loads s)) {}
                   (s\<lparr>seen := insert k (seen s)\<rparr>))))"
| "branches e idx [] tried s = s"
| "branches e idx (i # rest) tried s =
     (let previousLoad = loads s ! i in
      if previousLoad \<in> tried then branches e idx rest tried s
      else
        (let tried' = insert previousLoad tried;
             it = freeItems e ! idx;
             newLoad = previousLoad + w it in
         if bestMakespanW s \<le> newLoad then branches e idx rest tried' s
         else
           (let s1 = s\<lparr>loads := (loads s)[i := newLoad],
                       assign := (assign s)[i := assign s ! i @ [it] ]\<rparr>;
                s2 = dfs e (idx + 1) s1;
                s3 = s2\<lparr>assign := (assign s2)[i := butlast (assign s2 ! i)],
                        loads := (loads s2)[i := previousLoad]\<rparr>
            in branches e idx rest tried' s3)))"
  by pat_completeness auto
termination
  by (relation "measures
        [\<lambda>x. case x of
                Inl (e, idx, s) \<Rightarrow> (if idx < length (freeItems e) then 2 * (length (freeItems e) - idx) + 1 else 0)
              | Inr (e, idx, ord, tried, s) \<Rightarrow> 2 * (length (freeItems e) - idx),
         \<lambda>x. case x of Inl _ \<Rightarrow> 0 | Inr (e, idx, ord, tried, s) \<Rightarrow> Suc (length ord)]")
     auto

section \<open>The solver\<close>

text \<open>
  \<open>solution\<close> is the state of the search when \<open>dfs(0)\<close> has returned, for
  \<open>teamCount \<ge> 1\<close>: the greedy baseline seeds \<open>bestMakespanW\<close> and \<open>bestAssign\<close>.
\<close>

definition avgLB_of :: "int list \<Rightarrow> item list \<Rightarrow> nat \<Rightarrow> int" where
  "avgLB_of baseW items tc = - ((- (sum_list baseW + sum_list (map w items))) div int tc)"

definition env_of :: "nat \<Rightarrow> int list \<Rightarrow> item list \<Rightarrow> env" where
  "env_of tc baseW items =
     \<lparr>freeItems = items, teamCount = tc, avgLB = avgLB_of baseW items tc, baseMax = max_list baseW\<rparr>"

definition init_search :: "nat \<Rightarrow> int list \<Rightarrow> item list \<Rightarrow> search" where
  "init_search tc baseW items =
     (case greedy tc baseW items of (loads0, assign0) \<Rightarrow>
        \<lparr>loads = baseW, assign = replicate tc [], bestMakespanW = max_list loads0,
         bestAssign = assign0, seen = {}\<rparr>)"

text \<open>The arrays \<open>baseW\<close> and \<open>freeItems\<close> that the source computes from its input.\<close>

definition baseW_in :: "job list \<Rightarrow> nat \<Rightarrow> int \<Rightarrow> int list" where
  "baseW_in js tc quant = baseW_of (quantum quant) (fixedLoads (partition_jobs tc js))"

definition items_in :: "job list \<Rightarrow> nat \<Rightarrow> int \<Rightarrow> item list" where
  "items_in js tc quant = freeItems_of (quantum quant) (free (partition_jobs tc js))"

definition solution :: "job list \<Rightarrow> nat \<Rightarrow> int \<Rightarrow> search" where
  "solution js tc quant =
     dfs (env_of tc (baseW_in js tc quant) (items_in js tc quant)) 0
       (init_search tc (baseW_in js tc quant) (items_in js tc quant))"

text \<open>Assembly of one team: push the free items of the best assignment, then sort.\<close>

definition add_item :: "team \<Rightarrow> item \<Rightarrow> team" where
  "add_item t it =
     t\<lparr>jobs := jobs t @ [entry_of it], totalMinutes := dadd (totalMinutes t) (minutes it)\<rparr>"

definition finish_team :: "entry list \<Rightarrow> int \<Rightarrow> item list \<Rightarrow> team" where
  "finish_team fa fl best =
     (let t = foldl add_item \<lparr>jobs = fa, totalMinutes = fl\<rparr> best
      in t\<lparr>jobs := sort_key (\<lambda>x. - minutes x) (jobs t)\<rparr>)"

definition assemble :: "nat \<Rightarrow> parts \<Rightarrow> item list list \<Rightarrow> team list" where
  "assemble tc p best =
     map (\<lambda>i. finish_team (fixedAssign p ! i) (fixedLoads p ! i) (best ! i)) [0..<tc]"

text \<open>
  With \<open>teamCount = 0\<close> every job is free; the greedy loop then calls \<open>push\<close> on the
  undefined \<open>assign0[0]\<close>, a TypeError, unless there is no job at all, in which case the
  result is the empty team list.
\<close>

definition solveOptimalWithFixed :: "job list \<Rightarrow> nat \<Rightarrow> int \<Rightarrow> error + team list" where
  "solveOptimalWithFixed js tc quant =
     (if tc = 0 then (if js = [] then Inr [] else Inl TypeError)
      else Inr (assemble tc (partition_jobs tc js) (bestAssign (solution js tc quant))))"

section \<open>The solver over the engine's sort\<close>

text \<open>
  The four calls of \<open>Array.prototype.sort\<close> are the only places where the source leaves
  a choice to the JavaScript engine: the order of elements that the comparator calls
  equal. \<open>sorts\<close> holds one function per call site, and the functions below are the
  source once more, with these calls as parameters:
  \<open>.sort((a, b) => b.w - a.w)\<close> on the free items,
  \<open>.sort((a, b) => a - b)\<close> on the copy of \<open>loads\<close> in \<open>key\<close>,
  \<open>.sort((a, b) => loads[a] - loads[b])\<close> on the team indices, and
  \<open>.sort((a, b) => b.minutes - a.minutes)\<close> on the jobs of a team.
\<close>

record sorts =
  sort_items :: "item list \<Rightarrow> item list"
  sort_loads :: "int list \<Rightarrow> int list"
  sort_order :: "int list \<Rightarrow> nat list \<Rightarrow> nat list"
  sort_jobs :: "entry list \<Rightarrow> entry list"

definition freeItems_with :: "sorts \<Rightarrow> int \<Rightarrow> job list \<Rightarrow> item list" where
  "freeItems_with srt q fr = sort_items srt (map (mk_item q) fr)"

definition key_with :: "sorts \<Rightarrow> nat \<Rightarrow> int list \<Rightarrow> nat \<times> int list" where
  "key_with srt idx ls = (idx, sort_loads srt ls)"

definition order_with :: "sorts \<Rightarrow> nat \<Rightarrow> int list \<Rightarrow> nat list" where
  "order_with srt tc ls = sort_order srt ls [0..<tc]"


definition items_with :: "sorts \<Rightarrow> job list \<Rightarrow> nat \<Rightarrow> int \<Rightarrow> item list" where
  "items_with srt js tc quant = freeItems_with srt (quantum quant) (free (partition_jobs tc js))"





text \<open>
  What ECMAScript 2019 promises of \<open>sort\<close> with a consistent comparator: the result is
  a permutation of the array, in the order of the comparator, and elements that compare
  equal keep their relative order. \<open>f\<close> is the key that the comparator compares.
\<close>

definition stable_sort_of :: "('a \<Rightarrow> int) \<Rightarrow> ('a list \<Rightarrow> 'a list) \<Rightarrow> bool" where
  "stable_sort_of f srt \<longleftrightarrow>
     (\<forall>xs. sorted (map f (srt xs)) \<and> mset (srt xs) = mset xs
           \<and> (\<forall>k. filter (\<lambda>x. f x = k) (srt xs) = filter (\<lambda>x. f x = k) xs))"

definition sort_contract :: "sorts \<Rightarrow> bool" where
  "sort_contract srt \<longleftrightarrow>
     stable_sort_of (\<lambda>it. - w it) (sort_items srt)
     \<and> stable_sort_of (\<lambda>x. x) (sort_loads srt)
     \<and> (\<forall>ls. stable_sort_of (\<lambda>i. ls ! i) (sort_order srt ls))
     \<and> stable_sort_of (\<lambda>x. - minutes x) (sort_jobs srt)"

text \<open>The least that any sort does: it returns a permutation of its argument.\<close>

definition perm_sorts :: "sorts \<Rightarrow> bool" where
  "perm_sorts srt \<longleftrightarrow>
     (\<forall>xs. mset (sort_items srt xs) = mset xs)
     \<and> (\<forall>ls. mset (sort_loads srt ls) = mset ls)
     \<and> (\<forall>ls xs. mset (sort_order srt ls xs) = mset xs)
     \<and> (\<forall>xs. mset (sort_jobs srt xs) = mset xs)"

text \<open>
  Two implementations: the stable insertion sort of the model above, and a sort that
  orders correctly but reverses the elements that compare equal.
\<close>

definition insertion_sorts :: sorts where
  "insertion_sorts =
     \<lparr>sort_items = sort_key (\<lambda>it. - w it), sort_loads = sort,
      sort_order = (\<lambda>ls. sort_key (\<lambda>i. ls ! i)), sort_jobs = sort_key (\<lambda>x. - minutes x)\<rparr>"


section \<open>Notions used to state the properties\<close>

text \<open>Job \<open>j\<close> is pinned to the team with index \<open>t\<close> (team number \<open>t + 1\<close>).\<close>

definition fixed_to :: "nat \<Rightarrow> nat \<Rightarrow> job \<Rightarrow> bool" where
  "fixed_to tc t j \<longleftrightarrow> isFixed tc j \<and> fixedTeam j = int t + 1"

text \<open>
  An assignment of the free items to \<open>tc\<close> teams: one list of items per team, every
  item in exactly one of them.
\<close>

definition distribution :: "nat \<Rightarrow> item list \<Rightarrow> item list list \<Rightarrow> bool" where
  "distribution tc items asg \<longleftrightarrow> length asg = tc \<and> mset (concat asg) = mset items"

text \<open>The quantized load of team \<open>t\<close>, and the makespan in weight units.\<close>

definition team_weight :: "int list \<Rightarrow> item list list \<Rightarrow> nat \<Rightarrow> int" where
  "team_weight baseW asg t = baseW ! t + sum_list (map w (asg ! t))"

definition makespanW :: "nat \<Rightarrow> int list \<Rightarrow> item list list \<Rightarrow> int" where
  "makespanW tc baseW asg = max_list (map (team_weight baseW asg) [0..<tc])"







text \<open>Shape of the search state, and what \<open>loads\<close> and \<open>assign\<close> hold at depth \<open>idx\<close>.\<close>

definition wf_state :: "env \<Rightarrow> search \<Rightarrow> bool" where
  "wf_state e s \<longleftrightarrow> length (loads s) = teamCount e \<and> length (assign s) = teamCount e"

definition node_ok :: "env \<Rightarrow> int list \<Rightarrow> nat \<Rightarrow> search \<Rightarrow> bool" where
  "node_ok e bw idx s \<longleftrightarrow>
     wf_state e s \<and> loads s = map (team_weight bw (assign s)) [0..<teamCount e]
     \<and> mset (concat (assign s)) = mset (take idx (freeItems e))"

definition good :: "env \<Rightarrow> int list \<Rightarrow> search \<Rightarrow> bool" where
  "good e bw s \<longleftrightarrow>
     distribution (teamCount e) (freeItems e) (bestAssign s)
     \<and> bestMakespanW s = makespanW (teamCount e) bw (bestAssign s)"

section \<open>Sample inputs\<close>


definition sample_fixed :: "job list" where
  "sample_fixed =
     [\<lparr>name = ''X'', minutes = 100, fixedTeam = 1\<rparr>, \<lparr>name = ''a'', minutes = 50, fixedTeam = 0\<rparr>,
      \<lparr>name = ''b'', minutes = 120, fixedTeam = 5\<rparr>, \<lparr>name = ''c'', minutes = 100, fixedTeam = 0\<rparr>]"

definition sample_fixed_teams :: "team list" where
  "sample_fixed_teams =
     [\<lparr>jobs = [\<lparr>name = ''X'', minutes = 100\<rparr>, \<lparr>name = ''c'', minutes = 100\<rparr>], totalMinutes = 200\<rparr>,
      \<lparr>jobs = [\<lparr>name = ''b'', minutes = 120\<rparr>, \<lparr>name = ''a'', minutes = 50\<rparr>], totalMinutes = 170\<rparr>]"




section \<open>Partition, weights and assembly: basic facts\<close>

lemma partition_step_lengths:
  "length (fixedLoads (partition_step tc p j)) = length (fixedLoads p)"
  "length (fixedAssign (partition_step tc p j)) = length (fixedAssign p)"
  by (simp_all add: partition_step_def Let_def)

lemma partition_jobs_snoc:
  "partition_jobs tc (js @ [j]) = partition_step tc (partition_jobs tc js) j"
  by (simp add: partition_jobs_def)

lemma partition_jobs_Nil:
  "partition_jobs tc [] = \<lparr>fixedLoads = replicate tc 0, fixedAssign = replicate tc [], free = []\<rparr>"
  by (simp add: partition_jobs_def)

lemma length_fixedLoads [simp]: "length (fixedLoads (partition_jobs tc js)) = tc"
  by (induction js rule: rev_induct) (simp_all add: partition_jobs_Nil partition_jobs_snoc partition_step_lengths)

lemma length_fixedAssign [simp]: "length (fixedAssign (partition_jobs tc js)) = tc"
  by (induction js rule: rev_induct) (simp_all add: partition_jobs_Nil partition_jobs_snoc partition_step_lengths)

lemma isFixed_index: "isFixed tc j \<Longrightarrow> nat (fixedTeam j - 1) < tc"
  by (simp add: isFixed_def) linarith

lemma fixed_to_index: "fixed_to tc t j \<longleftrightarrow> isFixed tc j \<and> nat (fixedTeam j - 1) = t"
  by (auto simp: fixed_to_def isFixed_def)

lemma free_partition: "free (partition_jobs tc js) = filter (\<lambda>j. \<not> isFixed tc j) js"
  by (induction js rule: rev_induct)
     (simp_all add: partition_jobs_Nil partition_jobs_snoc partition_step_def Let_def)

lemma fixedAssign_partition:
  "t < tc \<Longrightarrow> fixedAssign (partition_jobs tc js) ! t = map entry_of (filter (fixed_to tc t) js)"
proof (induction js rule: rev_induct)
  case Nil
  then show ?case by (simp add: partition_jobs_Nil)
next
  case (snoc j js)
  show ?case
  proof (cases "isFixed tc j")
    case True
    then have "nat (fixedTeam j - 1) < tc" by (rule isFixed_index)
    with True snoc show ?thesis
      by (simp add: partition_jobs_snoc partition_step_def Let_def nth_list_update fixed_to_index)
  next
    case False
    with snoc show ?thesis
      by (simp add: partition_jobs_snoc partition_step_def fixed_to_index)
  qed
qed

lemma fixedLoads_partition:
  "t < tc \<Longrightarrow> fixedLoads (partition_jobs tc js) ! t = foldl dadd 0 (map minutes (filter (fixed_to tc t) js))"
proof (induction js rule: rev_induct)
  case Nil
  then show ?case by (simp add: partition_jobs_Nil)
next
  case (snoc j js)
  show ?case
  proof (cases "isFixed tc j")
    case True
    then have "nat (fixedTeam j - 1) < tc" by (rule isFixed_index)
    with True snoc show ?thesis
      by (simp add: partition_jobs_snoc partition_step_def Let_def nth_list_update fixed_to_index)
  next
    case False
    with snoc show ?thesis
      by (simp add: partition_jobs_snoc partition_step_def fixed_to_index)
  qed
qed

lemma foldl_add_item:
  "foldl add_item t best =
     t\<lparr>jobs := jobs t @ map entry_of best, totalMinutes := foldl dadd (totalMinutes t) (map minutes best)\<rparr>"
  by (induction best arbitrary: t) (simp_all add: add_item_def)

lemma finish_team_eq:
  "finish_team fa fl best =
     \<lparr>jobs = sort_key (\<lambda>x. - minutes x) (fa @ map entry_of best),
      totalMinutes = foldl dadd fl (map minutes best)\<rparr>"
  by (simp add: finish_team_def foldl_add_item)

lemma minutes_entry_of [simp]: "minutes (entry_of x) = minutes x"
  by (simp add: entry_of_def)

lemma name_entry_of [simp]: "name (entry_of x) = name x"
  by (simp add: entry_of_def)

lemma length_assemble [simp]: "length (assemble tc p best) = tc"
  by (simp add: assemble_def)

lemma nth_assemble:
  "t < tc \<Longrightarrow> assemble tc p best ! t =
     \<lparr>jobs = sort_key (\<lambda>x. - minutes x) (fixedAssign p ! t @ map entry_of (best ! t)),
      totalMinutes = foldl dadd (fixedLoads p ! t) (map minutes (best ! t))\<rparr>"
  by (simp add: assemble_def finish_team_eq)








lemma dadd_exact: "\<bar>a\<bar> < 2 ^ 53 \<Longrightarrow> \<bar>a + b\<bar> < 2 ^ 53 \<Longrightarrow> dadd a b = a + b"
proof -
  assume a: "\<bar>a\<bar> < 2 ^ 53" and ab: "\<bar>a + b\<bar> < 2 ^ 53"
  have "(2::int) ^ 53 \<le> 2 ^ 1024" by (intro power_increasing) simp_all
  with a have "\<not> 2 ^ 1024 \<le> \<bar>a\<bar>" by linarith
  with ab show ?thesis by (simp add: dadd_def to_double_def)
qed

lemma foldl_dadd_exact:
  "0 \<le> a \<Longrightarrow> \<forall>x\<in>set xs. 0 \<le> x \<Longrightarrow> a + sum_list xs < 2 ^ 53 \<Longrightarrow> foldl dadd a xs = a + sum_list xs"
proof (induction xs arbitrary: a)
  case Nil
  show ?case by simp
next
  case (Cons x xs)
  from Cons.prems have x: "0 \<le> x" and xs: "\<forall>x\<in>set xs. 0 \<le> x" by simp_all
  from xs have s: "0 \<le> sum_list xs" by (simp add: sum_list_nonneg)
  have "dadd a x = a + x"
    using Cons.prems(1,3) x s by (intro dadd_exact) simp_all
  moreover have "foldl dadd (a + x) xs = (a + x) + sum_list xs"
    using Cons.prems(1,3) x xs by (intro Cons.IH) simp_all
  ultimately show ?case by simp
qed



lemma quantum_pos: "1 \<le> quantum quant"
  by (simp add: quantum_def)

lemma sum_minutes_sort_key:
  "sum_list (map minutes (sort_key f xs)) = sum_list (map minutes xs)"
proof -
  have "mset (map minutes (sort_key f xs)) = mset (map minutes xs)"
    by simp
  then show ?thesis
    by (metis sum_mset_sum_list)
qed



lemma dfs_no_items:
  "freeItems e = [] \<Longrightarrow> bestAssign (dfs e 0 s) = (if max_list (loads s) < bestMakespanW s then assign s else bestAssign s)"
  by (simp add: Let_def)

declare dfs.simps [simp del] branches.simps [simp del]

lemma greedy_Nil: "greedy tc baseW [] = (baseW, replicate tc [])"
  by (simp add: greedy_def)

lemma items_in_Nil: "items_in [] tc quant = []"
  by (simp add: items_in_def freeItems_of_def partition_jobs_Nil)

section \<open>The search: frame, undo and the best solution found\<close>



lemma set_order_of [simp]: "set (order_of tc ls) = {..<tc}"
  by (auto simp: order_of_def)

lemma wf_state_seen [simp]: "wf_state e (s\<lparr>seen := S\<rparr>) = wf_state e s"
  by (simp add: wf_state_def)

lemma dfs_restores:
  "wf_state e s \<Longrightarrow> loads (dfs e idx s) = loads s \<and> assign (dfs e idx s) = assign s"
  and branches_restores:
  "wf_state e s \<Longrightarrow> set ord \<subseteq> {..<teamCount e} \<Longrightarrow>
     loads (branches e idx ord tried s) = loads s \<and> assign (branches e idx ord tried s) = assign s"
proof (induction e idx s and e idx ord tried s rule: dfs_branches.induct)
  case (1 e idx s)
  show ?case
  proof (cases "idx \<noteq> length (freeItems e) \<and> \<not> length (freeItems e) < idx
      \<and> \<not> bestMakespanW s \<le> max (max (avgLB e) (baseMax e)) (max_list (loads s))
      \<and> key idx (loads s) \<notin> seen s")
    case True
    then have eq: "dfs e idx s = branches e idx (order_of (teamCount e) (loads s)) {}
        (s\<lparr>seen := insert (key idx (loads s)) (seen s)\<rparr>)"
      by (simp add: dfs.simps [of e idx s] Let_def)
    from True "1.prems" show ?thesis
      using "1.IH" [OF _ _ refl refl _ refl] unfolding eq by simp
  next
    case False
    then show ?thesis
      by (auto simp: dfs.simps [of e idx s] Let_def)
  qed
next
  case (2 e idx tried s)
  show ?case by (simp add: branches.simps)
next
  case (3 e idx i rest tried s)
  let ?prev = "loads s ! i"
  let ?it = "freeItems e ! idx"
  let ?new = "?prev + w ?it"
  let ?s1 = "s\<lparr>loads := (loads s)[i := ?new], assign := (assign s)[i := assign s ! i @ [?it] ]\<rparr>"
  let ?s2 = "dfs e (idx + 1) ?s1"
  let ?s3 = "?s2\<lparr>assign := (assign ?s2)[i := butlast (assign ?s2 ! i)], loads := (loads ?s2)[i := ?prev]\<rparr>"
  from "3.prems" have wf: "wf_state e s" and rest: "set rest \<subseteq> {..<teamCount e}"
    and i: "i < length (loads s)" "i < length (assign s)"
    by (simp_all add: wf_state_def)
  show ?case
  proof (cases "?prev \<in> tried")
    case True
    with "3.IH"(1) [OF refl _ wf rest] show ?thesis
      by (simp add: branches.simps(2) [of e idx i rest tried s])
  next
    case nt: False
    show ?thesis
    proof (cases "bestMakespanW s \<le> ?new")
      case True
      with nt "3.IH"(2) [OF refl _ refl refl refl _ wf rest] show ?thesis
        by (simp add: branches.simps(2) [of e idx i rest tried s] Let_def)
    next
      case False
      have eq: "branches e idx (i # rest) tried s = branches e idx rest (insert ?prev tried) ?s3"
        using nt False by (simp add: branches.simps(2) [of e idx i rest tried s] Let_def)
      have wf1: "wf_state e ?s1"
        using wf by (simp add: wf_state_def)
      have a: "loads ?s2 = loads ?s1 \<and> assign ?s2 = assign ?s1"
        using "3.IH"(3) [OF refl nt refl refl refl False refl wf1] .
      have l3: "loads ?s3 = loads s"
        using a by simp
      have a3: "assign ?s3 = assign s"
        using a i by simp
      have wf3: "wf_state e ?s3"
        using wf l3 a3 by (simp only: wf_state_def)
      have "loads (branches e idx rest (insert ?prev tried) ?s3) = loads ?s3
          \<and> assign (branches e idx rest (insert ?prev tried) ?s3) = assign ?s3"
        using "3.IH"(4) [OF refl nt refl refl refl False refl refl refl wf3 rest] .
      with l3 a3 show ?thesis
        unfolding eq by (simp only:)
    qed
  qed
qed

text \<open>The loop body, with the undo carried out.\<close>

lemma branches_Cons:
  assumes "wf_state e s" and "i < teamCount e"
  shows "branches e idx (i # rest) tried s =
    (if loads s ! i \<in> tried then branches e idx rest tried s
     else if bestMakespanW s \<le> loads s ! i + w (freeItems e ! idx)
       then branches e idx rest (insert (loads s ! i) tried) s
     else branches e idx rest (insert (loads s ! i) tried)
       (s\<lparr>bestMakespanW :=
             bestMakespanW (dfs e (Suc idx)
               (s\<lparr>loads := (loads s)[i := loads s ! i + w (freeItems e ! idx)],
                  assign := (assign s)[i := assign s ! i @ [freeItems e ! idx] ]\<rparr>)),
          bestAssign :=
             bestAssign (dfs e (Suc idx)
               (s\<lparr>loads := (loads s)[i := loads s ! i + w (freeItems e ! idx)],
                  assign := (assign s)[i := assign s ! i @ [freeItems e ! idx] ]\<rparr>)),
          seen :=
             seen (dfs e (Suc idx)
               (s\<lparr>loads := (loads s)[i := loads s ! i + w (freeItems e ! idx)],
                  assign := (assign s)[i := assign s ! i @ [freeItems e ! idx] ]\<rparr>))\<rparr>))"
proof -
  let ?s1 = "s\<lparr>loads := (loads s)[i := loads s ! i + w (freeItems e ! idx)],
                  assign := (assign s)[i := assign s ! i @ [freeItems e ! idx] ]\<rparr>"
  let ?s2 = "dfs e (Suc idx) ?s1"
  from assms have i: "i < length (loads s)" "i < length (assign s)"
    by (simp_all add: wf_state_def)
  have wf1: "wf_state e ?s1"
    using assms(1) by (simp add: wf_state_def)
  have a: "loads ?s2 = loads ?s1" "assign ?s2 = assign ?s1"
    using dfs_restores [OF wf1] by simp_all
  have "?s2\<lparr>assign := (assign ?s2)[i := butlast (assign ?s2 ! i)], loads := (loads ?s2)[i := loads s ! i]\<rparr>
      = s\<lparr>bestMakespanW := bestMakespanW ?s2, bestAssign := bestAssign ?s2, seen := seen ?s2\<rparr>"
    using i by (intro search.equality) (simp_all add: a)
  then show ?thesis
    by (simp add: branches.simps(2) [of e idx i rest tried s] Let_def)
qed


lemma dfs_leaf:
  "idx = length (freeItems e) \<Longrightarrow>
     dfs e idx s = (if max_list (loads s) < bestMakespanW s
                    then s\<lparr>bestMakespanW := max_list (loads s), bestAssign := assign s\<rparr> else s)"
  by (subst dfs.simps) (simp add: Let_def)

lemma dfs_inner:
  "idx < length (freeItems e) \<Longrightarrow>
     dfs e idx s =
       (if bestMakespanW s \<le> max (max (avgLB e) (baseMax e)) (max_list (loads s)) then s
        else if key idx (loads s) \<in> seen s then s
        else branches e idx (order_of (teamCount e) (loads s)) {}
               (s\<lparr>seen := insert (key idx (loads s)) (seen s)\<rparr>))"
  by (simp add: dfs.simps [of e idx s] Let_def)

lemma mset_concat_place:
  "i < length asg \<Longrightarrow> mset (concat (asg[i := asg ! i @ [x] ])) = add_mset x (mset (concat asg))"
proof (induction asg arbitrary: i)
  case Nil
  then show ?case by simp
next
  case (Cons a asg)
  then show ?case by (cases i) simp_all
qed

lemma place_loads:
  assumes "i < tc" and "length asg = tc" and "ls = map (team_weight bw asg) [0..<tc]"
  shows "ls[i := ls ! i + w x] = map (team_weight bw (asg[i := asg ! i @ [x] ])) [0..<tc]"
proof (rule nth_equalityI)
  show "length (ls[i := ls ! i + w x]) = length (map (team_weight bw (asg[i := asg ! i @ [x] ])) [0..<tc])"
    using assms by simp
next
  fix t
  assume "t < length (ls[i := ls ! i + w x])"
  then have t: "t < tc" using assms by simp
  show "ls[i := ls ! i + w x] ! t = map (team_weight bw (asg[i := asg ! i @ [x] ])) [0..<tc] ! t"
    using t assms by (cases "t = i") (simp_all add: team_weight_def)
qed

lemma node_ok_best [simp]:
  "node_ok e bw idx (s\<lparr>bestMakespanW := a\<rparr>) = node_ok e bw idx s"
  "node_ok e bw idx (s\<lparr>bestAssign := b\<rparr>) = node_ok e bw idx s"
  by (simp_all add: node_ok_def wf_state_def)

lemma node_ok_seen [simp]: "node_ok e bw idx (s\<lparr>seen := c\<rparr>) = node_ok e bw idx s"
  by (simp add: node_ok_def wf_state_def)

lemma good_seen [simp]: "good e bw (s\<lparr>seen := c\<rparr>) = good e bw s"
  by (simp add: good_def)

lemma good_copy [simp]:
  "good e bw (s\<lparr>bestMakespanW := bestMakespanW s2, bestAssign := bestAssign s2\<rparr>) = good e bw s2"
  by (simp add: good_def)

lemma node_ok_place:
  assumes "node_ok e bw idx s" and "i < teamCount e" and "idx < length (freeItems e)"
  shows "node_ok e bw (Suc idx)
     (s\<lparr>loads := (loads s)[i := loads s ! i + w (freeItems e ! idx)],
        assign := (assign s)[i := assign s ! i @ [freeItems e ! idx] ]\<rparr>)"
proof -
  from assms(1) have wf: "length (loads s) = teamCount e" "length (assign s) = teamCount e"
    and ls: "loads s = map (team_weight bw (assign s)) [0..<teamCount e]"
    and ms: "mset (concat (assign s)) = mset (take idx (freeItems e))"
    by (simp_all add: node_ok_def wf_state_def)
  have "mset (concat ((assign s)[i := assign s ! i @ [freeItems e ! idx] ]))
      = mset (take (Suc idx) (freeItems e))"
    using assms(2,3) wf ms by (simp add: mset_concat_place take_Suc_conv_app_nth)
  moreover have "(loads s)[i := loads s ! i + w (freeItems e ! idx)]
      = map (team_weight bw ((assign s)[i := assign s ! i @ [freeItems e ! idx] ])) [0..<teamCount e]"
    using assms(2) wf(2) ls by (rule place_loads)
  ultimately show ?thesis
    using wf by (simp add: node_ok_def wf_state_def)
qed

lemma branches_good:
  assumes child: "\<And>s'. node_ok e bw (Suc idx) s' \<Longrightarrow> good e bw s' \<Longrightarrow> good e bw (dfs e (Suc idx) s')"
    and idx: "idx < length (freeItems e)"
  shows "node_ok e bw idx s \<Longrightarrow> good e bw s \<Longrightarrow> set ord \<subseteq> {..<teamCount e} \<Longrightarrow>
     good e bw (branches e idx ord tried s)"
proof (induction ord arbitrary: tried s)
  case Nil
  then show ?case by (simp add: branches.simps)
next
  case (Cons i rest)
  from Cons.prems have i: "i < teamCount e" and rest: "set rest \<subseteq> {..<teamCount e}"
    and wf: "wf_state e s"
    by (simp_all add: node_ok_def)
  let ?s1 = "s\<lparr>loads := (loads s)[i := loads s ! i + w (freeItems e ! idx)],
                assign := (assign s)[i := assign s ! i @ [freeItems e ! idx] ]\<rparr>"
  have n1: "node_ok e bw (Suc idx) ?s1"
    using Cons.prems(1) i idx by (rule node_ok_place)
  have g1: "good e bw ?s1"
    using Cons.prems(2) by (simp add: good_def)
  have g2: "good e bw (dfs e (Suc idx) ?s1)"
    using n1 g1 by (rule child)
  show ?case
    unfolding branches_Cons [OF wf i]
    using Cons.IH [OF Cons.prems(1,2) rest] g2 Cons.prems(1) rest
    by (auto intro!: Cons.IH)
qed

lemma max_list_loads:
  "node_ok e bw idx s \<Longrightarrow> max_list (loads s) = makespanW (teamCount e) bw (assign s)"
  by (simp add: node_ok_def makespanW_def)

lemma dfs_good:
  "idx \<le> length (freeItems e) \<Longrightarrow> node_ok e bw idx s \<Longrightarrow> good e bw s \<Longrightarrow> good e bw (dfs e idx s)"
proof (induction "length (freeItems e) - idx" arbitrary: idx s)
  case 0
  then have idx: "idx = length (freeItems e)" by simp
  from "0.prems"(2) have "distribution (teamCount e) (freeItems e) (assign s)"
    by (simp add: node_ok_def wf_state_def distribution_def idx)
  with "0.prems" show ?case
    by (simp add: dfs_leaf [OF idx] good_def max_list_loads)
next
  case (Suc k)
  then have idx: "idx < length (freeItems e)" by simp
  have child: "\<And>s'. node_ok e bw (Suc idx) s' \<Longrightarrow> good e bw s' \<Longrightarrow> good e bw (dfs e (Suc idx) s')"
    using Suc.hyps(2) idx by (intro Suc.hyps(1)) simp_all
  have "good e bw (branches e idx (order_of (teamCount e) (loads s)) {}
          (s\<lparr>seen := insert (key idx (loads s)) (seen s)\<rparr>))"
    using Suc.prems(2,3) by (intro branches_good [OF child idx]) simp_all
  with Suc.prems(3) show ?case
    by (simp add: dfs_inner [OF idx])
qed


lemma leastLoaded_Suc:
  "0 < n \<Longrightarrow> leastLoaded ls (Suc n) =
     (if ls ! n < ls ! leastLoaded ls n then n else leastLoaded ls n)"
  by (simp add: leastLoaded_def upt_Suc_append [of 1 n, simplified])

lemma leastLoaded_spec:
  "0 < tc \<Longrightarrow>
     leastLoaded ls tc < tc
     \<and> (\<forall>i<tc. ls ! leastLoaded ls tc \<le> ls ! i)
     \<and> (\<forall>i<leastLoaded ls tc. ls ! leastLoaded ls tc < ls ! i)"
proof (induction tc)
  case 0
  then show ?case by simp
next
  case (Suc n)
  show ?case
  proof (cases "n = 0")
    case True
    then show ?thesis by (simp add: leastLoaded_def)
  next
    case False
    then have n: "0 < n" by simp
    note ih = Suc.IH [OF n]
    show ?thesis
    proof (cases "ls ! n < ls ! leastLoaded ls n")
      case True
      then have eq: "leastLoaded ls (Suc n) = n"
        by (simp add: leastLoaded_Suc [OF n])
      have "\<forall>i<n. ls ! n < ls ! i"
        using ih True by force
      then show ?thesis
        unfolding eq by (auto simp: less_Suc_eq intro: less_imp_le)
    next
      case False
      then have eq: "leastLoaded ls (Suc n) = leastLoaded ls n"
        by (simp add: leastLoaded_Suc [OF n])
      from ih False show ?thesis
        unfolding eq by (auto simp: less_Suc_eq)
    qed
  qed
qed


lemma greedy_snoc: "greedy tc bw (items @ [x]) = greedy_step tc (greedy tc bw items) x"
  by (simp add: greedy_def)

lemma team_weight_empty:
  "length bw = tc \<Longrightarrow> map (team_weight bw (replicate tc [])) [0..<tc] = bw"
  by (rule nth_equalityI) (simp_all add: team_weight_def)

lemma greedy_inv:
  assumes "0 < tc" and "length bw = tc"
  shows "length (fst (greedy tc bw items)) = tc \<and> length (snd (greedy tc bw items)) = tc
    \<and> fst (greedy tc bw items) = map (team_weight bw (snd (greedy tc bw items))) [0..<tc]
    \<and> mset (concat (snd (greedy tc bw items))) = mset items"
proof (induction items rule: rev_induct)
  case Nil
  from assms show ?case
    by (simp add: greedy_def team_weight_empty)
next
  case (snoc x items)
  obtain l0 a0 where g: "greedy tc bw items = (l0, a0)"
    by (cases "greedy tc bw items")
  from snoc g have ih: "length l0 = tc" "length a0 = tc" "l0 = map (team_weight bw a0) [0..<tc]"
      "mset (concat a0) = mset items"
    by simp_all
  let ?b = "leastLoaded l0 tc"
  have b: "?b < tc"
    using leastLoaded_spec [OF assms(1)] by blast
  have "l0[?b := l0 ! ?b + w x] = map (team_weight bw (a0[?b := a0 ! ?b @ [x] ])) [0..<tc]"
    using b ih(2,3) by (rule place_loads)
  moreover have "mset (concat (a0[?b := a0 ! ?b @ [x] ])) = mset (items @ [x])"
    using b ih(2,4) by (simp add: mset_concat_place)
  ultimately show ?case
    using ih(1,2) by (simp add: greedy_snoc g greedy_step_def Let_def)
qed


lemma length_baseW_of [simp]: "length (baseW_of q fl) = length fl"
  by (simp add: baseW_of_def)

lemma length_baseW_in [simp]: "length (baseW_in js tc quant) = tc"
  by (simp add: baseW_in_def)

lemma init_node_ok:
  assumes "0 < tc" and "length bw = tc"
  shows "node_ok (env_of tc bw items) bw 0 (init_search tc bw items)"
  using assms
  by (simp add: node_ok_def wf_state_def env_of_def init_search_def team_weight_empty split: prod.split)

lemma init_good:
  assumes "0 < tc" and "length bw = tc"
  shows "good (env_of tc bw items) bw (init_search tc bw items)"
proof -
  obtain l0 a0 where g: "greedy tc bw items = (l0, a0)"
    by (cases "greedy tc bw items")
  from greedy_inv [OF assms, of items] g
  have "length a0 = tc" "l0 = map (team_weight bw a0) [0..<tc]" "mset (concat a0) = mset items"
    by simp_all
  then show ?thesis
    by (simp add: good_def env_of_def init_search_def g distribution_def makespanW_def)
qed

lemma solution_good:
  assumes "0 < tc"
  shows "good (env_of tc (baseW_in js tc quant) (items_in js tc quant)) (baseW_in js tc quant)
           (solution js tc quant)"
  unfolding solution_def
  using assms by (intro dfs_good init_node_ok init_good) simp_all

lemma solution_distribution:
  "0 < tc \<Longrightarrow> distribution tc (items_in js tc quant) (bestAssign (solution js tc quant))"
  using solution_good [of tc js quant] by (simp add: good_def env_of_def)



section \<open>The search: every assignment is covered\<close>















lemma wf_state_best [simp]:
  "wf_state e (s\<lparr>bestMakespanW := a\<rparr>) = wf_state e s"
  "wf_state e (s\<lparr>bestAssign := b\<rparr>) = wf_state e s"
  by (simp_all add: wf_state_def)












section \<open>The result, the job lists and the weights: auxiliary facts\<close>




lemma entry_of_mk_item [simp]: "entry_of (mk_item q j) = entry_of j"
  by (simp add: entry_of_def mk_item_def)

lemma minutes_mk_item [simp]: "minutes (mk_item q j) = minutes j"
  by (simp add: mk_item_def)



lemma mset_entries_items_in:
  "mset (map entry_of (items_in js tc quant)) = mset (map entry_of (filter (\<lambda>j. \<not> isFixed tc j) js))"
proof -
  have "mset (map entry_of (items_in js tc quant))
      = image_mset entry_of (mset (map (mk_item (quantum quant)) (filter (\<lambda>j. \<not> isFixed tc j) js)))"
    by (simp add: items_in_def freeItems_of_def free_partition)
  also have "\<dots> = mset (map entry_of (filter (\<lambda>j. \<not> isFixed tc j) js))"
    by (simp add: image_mset.compositionality comp_def)
  finally show ?thesis .
qed

lemma sum_list_image_concat:
  "sum_list (map (\<lambda>ys. image_mset f (mset ys)) xss) = image_mset f (mset (concat xss))"
  by (induction xss) simp_all

lemma sum_fixed_to:
  "(\<Sum>t<tc. mset (map entry_of (filter (fixed_to tc t) js))) = mset (map entry_of (filter (isFixed tc) js))"
proof (induction js)
  case Nil
  show ?case by simp
next
  case (Cons j js)
  show ?case
  proof (cases "isFixed tc j")
    case True
    let ?t0 = "nat (fixedTeam j - 1)"
    have t0: "?t0 < tc" using True by (rule isFixed_index)
    have "\<And>t. mset (map entry_of (filter (fixed_to tc t) (j # js)))
        = (if t = ?t0 then {#entry_of j#} else {#}) + mset (map entry_of (filter (fixed_to tc t) js))"
      using True by (auto simp: fixed_to_index)
    then have "(\<Sum>t<tc. mset (map entry_of (filter (fixed_to tc t) (j # js))))
        = (\<Sum>t<tc. if t = ?t0 then {#entry_of j#} else {#})
          + (\<Sum>t<tc. mset (map entry_of (filter (fixed_to tc t) js)))"
      by (simp add: sum.distrib)
    also have "(\<Sum>t<tc. if t = ?t0 then {#entry_of j#} else {#}) = {#entry_of j#}"
      using t0 by (simp add: sum.delta)
    finally show ?thesis
      using True Cons.IH by simp
  next
    case False
    then have "\<And>t. filter (fixed_to tc t) (j # js) = filter (fixed_to tc t) js"
      by (simp add: fixed_to_def)
    with False Cons.IH show ?thesis by simp
  qed
qed

lemma map_via_nth: "map g xs = map (\<lambda>t. g (xs ! t)) [0..<length xs]"
  by (rule nth_equalityI) simp_all

lemma mset_map_partition:
  "mset (map f (filter P xs)) + mset (map f (filter (\<lambda>x. \<not> P x) xs)) = mset (map f xs)"
  by (induction xs) simp_all

lemma concat_jobs_assemble:
  assumes "length best = tc"
  shows "mset (concat (map jobs (assemble tc (partition_jobs tc js) best)))
    = mset (map entry_of (filter (isFixed tc) js)) + image_mset entry_of (mset (concat best))"
proof -
  let ?p = "partition_jobs tc js"
  have "map (\<lambda>x. mset (jobs x)) (assemble tc ?p best)
      = map (\<lambda>t. mset (jobs (assemble tc ?p best ! t))) [0..<tc]"
    using map_via_nth [of "\<lambda>x. mset (jobs x)" "assemble tc ?p best"] by simp
  then have "mset (concat (map jobs (assemble tc ?p best)))
      = sum_list (map (\<lambda>t. mset (jobs (assemble tc ?p best ! t))) [0..<tc])"
    by (simp add: mset_concat comp_def)
  also have "\<dots> = sum_list (map (\<lambda>t. mset (map entry_of (filter (fixed_to tc t) js))
        + image_mset entry_of (mset (best ! t))) [0..<tc])"
    by (intro arg_cong [where f = sum_list] map_cong refl)
       (simp add: nth_assemble fixedAssign_partition)
  also have "\<dots> = sum_list (map (\<lambda>t. mset (map entry_of (filter (fixed_to tc t) js))) [0..<tc])
        + sum_list (map (\<lambda>t. image_mset entry_of (mset (best ! t))) [0..<tc])"
    by (simp add: sum_list_addf)
  also have "sum_list (map (\<lambda>t. mset (map entry_of (filter (fixed_to tc t) js))) [0..<tc])
      = (\<Sum>t<tc. mset (map entry_of (filter (fixed_to tc t) js)))"
    by (simp add: interv_sum_list_conv_sum_set_nat atLeast0LessThan)
  also have "sum_list (map (\<lambda>t. image_mset entry_of (mset (best ! t))) [0..<tc])
      = sum_list (map (\<lambda>ys. image_mset entry_of (mset ys)) best)"
    using assms map_via_nth [of "\<lambda>ys. image_mset entry_of (mset ys)" best] by simp
  finally show ?thesis
    by (simp only: sum_fixed_to sum_list_image_concat)
qed

lemma sum_minutes_concat:
  "sum_list (map (\<lambda>ys. sum_list (map minutes ys)) xss) = sum_list (map minutes (concat xss))"
  by (induction xss) simp_all



lemma quantum_gt0: "0 < quantum quant"
  using quantum_pos [of quant] by simp



lemma sum_filter_le:
  fixes f :: "'a \<Rightarrow> int"
  shows "\<forall>x\<in>set xs. 0 \<le> f x \<Longrightarrow> sum_list (map f (filter P xs)) \<le> sum_list (map f xs)"
  by (induction xs) auto

lemma sum_filter_partition:
  fixes f :: "'a \<Rightarrow> int"
  shows "sum_list (map f (filter P xs)) + sum_list (map f (filter (\<lambda>x. \<not> P x) xs)) = sum_list (map f xs)"
  by (induction xs) simp_all

lemma sum_nth_le_concat:
  fixes f :: "'a \<Rightarrow> int"
  shows "t < length xss \<Longrightarrow> \<forall>x\<in>set (concat xss). 0 \<le> f x \<Longrightarrow>
    sum_list (map f (xss ! t)) \<le> sum_list (map f (concat xss))"
proof (induction xss arbitrary: t)
  case Nil
  then show ?case by simp
next
  case (Cons xs xss)
  have a: "0 \<le> sum_list (map f xs)"
    using Cons.prems(2) by (intro sum_list_nonneg) auto
  have b: "0 \<le> sum_list (map f (concat xss))"
    using Cons.prems(2) by (intro sum_list_nonneg) auto
  show ?case
  proof (cases t)
    case 0
    with b show ?thesis by simp
  next
    case (Suc t')
    with Cons.prems have "sum_list (map f (xss ! t')) \<le> sum_list (map f (concat xss))"
      by (intro Cons.IH) auto
    with a Suc show ?thesis by simp
  qed
qed

lemma sum_minutes_items_in:
  "sum_list (map minutes (items_in js tc quant)) = sum_list (map minutes (filter (\<lambda>j. \<not> isFixed tc j) js))"
proof -
  have "image_mset minutes (image_mset entry_of (mset (items_in js tc quant)))
      = image_mset minutes (image_mset entry_of (mset (filter (\<lambda>j. \<not> isFixed tc j) js)))"
    using mset_entries_items_in [of js tc quant] by simp
  then have "image_mset minutes (mset (items_in js tc quant))
      = image_mset minutes (mset (filter (\<lambda>j. \<not> isFixed tc j) js))"
    by (simp add: image_mset.compositionality comp_def)
  then have "sum_mset (mset (map minutes (items_in js tc quant)))
      = sum_mset (mset (map minutes (filter (\<lambda>j. \<not> isFixed tc j) js)))"
    by simp
  then show ?thesis
    by (simp only: sum_mset_sum_list)
qed

lemma minutes_items_in_nonneg:
  assumes "\<forall>j\<in>set js. 0 \<le> minutes j" and "it \<in> set (items_in js tc quant)"
  shows "0 \<le> minutes it"
proof -
  from assms(2) have "minutes it \<in> minutes ` set js"
    by (auto simp: items_in_def freeItems_of_def free_partition)
  with assms(1) show ?thesis by auto
qed

text \<open>
  With durations that are not negative and add up to less than \<open>2^53\<close>, the running
  totals of a team are exact.
\<close>

lemma team_totals_exact:
  assumes nn: "\<forall>j\<in>set js. 0 \<le> minutes j"
    and tot: "sum_list (map minutes js) < 2 ^ 53"
    and d: "distribution tc (items_in js tc quant) best"
    and t: "t < tc"
  shows "fixedLoads (partition_jobs tc js) ! t = sum_list (map minutes (filter (fixed_to tc t) js))"
    and "foldl dadd (fixedLoads (partition_jobs tc js) ! t) (map minutes (best ! t))
      = sum_list (map minutes (filter (fixed_to tc t) js)) + sum_list (map minutes (best ! t))"
proof -
  let ?F = "sum_list (map minutes (filter (fixed_to tc t) js))"
  let ?B = "sum_list (map minutes (best ! t))"
  from d have len: "length best = tc" and ms: "mset (concat best) = mset (items_in js tc quant)"
    by (simp_all add: distribution_def)
  have setc: "set (concat best) = set (items_in js tc quant)"
    using ms by (rule mset_eq_setD)
  have bnn: "\<forall>x\<in>set (concat best). 0 \<le> minutes x"
    using nn setc minutes_items_in_nonneg by blast
  have fnn: "\<forall>x\<in>set (map minutes (filter (fixed_to tc t) js)). 0 \<le> x"
    using nn by auto
  have F0: "0 \<le> ?F" using fnn by (intro sum_list_nonneg) blast
  have "filter (fixed_to tc t) js = filter (fixed_to tc t) (filter (isFixed tc) js)"
    by (induction js) (simp_all add: fixed_to_def)
  then have "?F \<le> sum_list (map minutes (filter (isFixed tc) js))"
    using sum_filter_le [of "filter (isFixed tc) js" minutes "fixed_to tc t"] nn by simp
  moreover have "?B \<le> sum_list (map minutes (concat best))"
    using t len bnn by (intro sum_nth_le_concat) simp_all
  moreover have "sum_list (map minutes (concat best)) = sum_list (map minutes (items_in js tc quant))"
    using ms by (metis mset_map sum_mset_sum_list)
  moreover note sum_minutes_items_in [of js tc quant]
    sum_filter_partition [of minutes "isFixed tc" js]
  ultimately have FB: "?F + ?B < 2 ^ 53"
    using tot by linarith
  have bt: "\<forall>x\<in>set (map minutes (best ! t)). 0 \<le> x"
    using bnn t len by (auto simp: set_concat)
  have B0: "0 \<le> ?B" using bt by (intro sum_list_nonneg) blast
  have "foldl dadd 0 (map minutes (filter (fixed_to tc t) js)) = 0 + ?F"
    using fnn F0 B0 FB by (intro foldl_dadd_exact) simp_all
  then show fl: "fixedLoads (partition_jobs tc js) ! t = ?F"
    using t by (simp add: fixedLoads_partition)
  show "foldl dadd (fixedLoads (partition_jobs tc js) ! t) (map minutes (best ! t)) = ?F + ?B"
    unfolding fl using F0 bt FB by (rule foldl_dadd_exact)
qed

lemma total_is_sum_jobs:
  assumes "\<forall>j\<in>set js. 0 \<le> minutes j" and "sum_list (map minutes js) < 2 ^ 53"
    and "distribution tc (items_in js tc quant) best" and "t < tc"
  shows "totalMinutes (assemble tc (partition_jobs tc js) best ! t)
      = sum_list (map minutes (jobs (assemble tc (partition_jobs tc js) best ! t)))"
  using assms(4) team_totals_exact(2) [OF assms]
  by (simp add: nth_assemble fixedAssign_partition sum_minutes_sort_key comp_def)

lemma sum_totals_assemble:
  assumes "\<forall>j\<in>set js. 0 \<le> minutes j" and "sum_list (map minutes js) < 2 ^ 53"
    and "distribution tc (items_in js tc quant) best"
  shows "sum_list (map totalMinutes (assemble tc (partition_jobs tc js) best))
    = sum_mset (image_mset minutes (mset (concat (map jobs (assemble tc (partition_jobs tc js) best)))))"
proof -
  let ?ts = "assemble tc (partition_jobs tc js) best"
  have "map totalMinutes ?ts = map (\<lambda>t. sum_list (map minutes (jobs t))) ?ts"
  proof (rule nth_equalityI)
    show "length (map totalMinutes ?ts) = length (map (\<lambda>t. sum_list (map minutes (jobs t))) ?ts)"
      by simp
  next
    fix i assume "i < length (map totalMinutes ?ts)"
    then have "i < tc" by simp
    then show "map totalMinutes ?ts ! i = map (\<lambda>t. sum_list (map minutes (jobs t))) ?ts ! i"
      using total_is_sum_jobs [OF assms] by simp
  qed
  then have "sum_list (map totalMinutes ?ts) = sum_list (map (\<lambda>t. sum_list (map minutes (jobs t))) ?ts)"
    by (rule arg_cong)
  also have "\<dots> = sum_list (map minutes (concat (map jobs ?ts)))"
    using sum_minutes_concat [of "map jobs ?ts"] by (simp add: comp_def)
  also have "\<dots> = sum_mset (image_mset minutes (mset (concat (map jobs ?ts))))"
    by (metis mset_map sum_mset_sum_list)
  finally show ?thesis .
qed


lemma round_div_zero [simp]: "round_div 0 q = 0"
  by (simp add: round_div_def)


section \<open>The search over any sort\<close>



















text \<open>
  A sort that meets the contract is the stable sort by the key, so the contract leaves
  no choice; with the stable sorts \<open>dfs_with\<close> is \<open>dfs\<close>.
\<close>

lemma stable_sort_unique:
  assumes "stable_sort_of f srt"
  shows "srt = sort_key f"
proof
  fix xs
  from assms have s: "sorted (map f (srt xs))" and m: "mset (srt xs) = mset xs"
    and st: "\<And>k. filter (\<lambda>x. f x = k) (srt xs) = filter (\<lambda>x. f x = k) xs"
    by (simp_all add: stable_sort_of_def)
  have "sort_key f xs = srt xs"
  proof (rule properties_for_sort_key [OF m _ s])
    fix k
    from st [of "f k"] show "filter (\<lambda>x. f k = f x) (srt xs) = filter (\<lambda>x. f k = f x) xs"
      by (simp add: eq_commute)
  qed
  then show "srt xs = sort_key f xs" by simp
qed



lemma sort_contract_unique:
  assumes "sort_contract srt"
  shows "srt = insertion_sorts"
proof -
  from assms have "sort_items srt = sort_key (\<lambda>it. - w it)" "sort_loads srt = sort"
    "\<And>ls. sort_order srt ls = sort_key (\<lambda>i. ls ! i)" "sort_jobs srt = sort_key (\<lambda>x. - minutes x)"
    by (auto simp: sort_contract_def dest: stable_sort_unique)
  then show ?thesis
    by (intro sorts.equality) (auto simp: insertion_sorts_def)
qed

lemma perm_sorts_insertion: "perm_sorts insertion_sorts"
  by (simp add: perm_sorts_def insertion_sorts_def)


lemma sort_contract_perm: "sort_contract srt \<Longrightarrow> perm_sorts srt"
  using sort_contract_unique perm_sorts_insertion by blast

lemma key_with_insertion [simp]: "key_with insertion_sorts idx ls = key idx ls"
  by (simp add: key_with_def key_def insertion_sorts_def)

lemma order_with_insertion [simp]: "order_with insertion_sorts tc ls = order_of tc ls"
  by (simp add: order_with_def order_of_def insertion_sorts_def)


lemma items_with_insertion [simp]: "items_with insertion_sorts js tc quant = items_in js tc quant"
  by (simp add: items_with_def items_in_def freeItems_with_def freeItems_of_def insertion_sorts_def)







section \<open>Properties of the solver\<close>



text \<open>
  C2. Conservation, as the code has it. For every team count of at least one the solver
  returns \<open>teamCount\<close> teams, and the job lists of the teams together hold every input
  job exactly as often as the input does, so every job is in exactly one team's list.
  The totals are running sums of binary64 numbers: they add up to the sum of the
  durations of the input jobs when no duration is negative and the durations add up to
  less than \<open>2^53\<close>.
\<close>

theorem jobs_conserved:
  assumes "0 < tc"
  shows "\<exists>teams. solveOptimalWithFixed js tc quant = Inr teams \<and> length teams = tc
    \<and> mset (concat (map jobs teams)) = mset (map entry_of js)
    \<and> ((\<forall>j\<in>set js. 0 \<le> minutes j) \<and> sum_list (map minutes js) < 2 ^ 53 \<longrightarrow>
         sum_list (map totalMinutes teams) = sum_list (map minutes js))"
proof -
  let ?best = "bestAssign (solution js tc quant)"
  let ?teams = "assemble tc (partition_jobs tc js) ?best"
  have r: "solveOptimalWithFixed js tc quant = Inr ?teams"
    using assms by (simp add: solveOptimalWithFixed_def)
  have dist: "distribution tc (items_in js tc quant) ?best"
    using assms by (rule solution_distribution)
  then have d: "length ?best = tc" "mset (concat ?best) = mset (items_in js tc quant)"
    by (simp_all add: distribution_def)
  have "image_mset entry_of (mset (concat ?best)) = mset (map entry_of (filter (\<lambda>j. \<not> isFixed tc j) js))"
    using mset_entries_items_in [of js tc quant] by (simp add: d(2))
  then have "mset (concat (map jobs ?teams))
      = mset (map entry_of (filter (isFixed tc) js)) + mset (map entry_of (filter (\<lambda>j. \<not> isFixed tc j) js))"
    by (simp add: concat_jobs_assemble [OF d(1)])
  also have "\<dots> = mset (map entry_of js)"
    by (rule mset_map_partition)
  finally have m: "mset (concat (map jobs ?teams)) = mset (map entry_of js)" .
  have t: "(\<forall>j\<in>set js. 0 \<le> minutes j) \<and> sum_list (map minutes js) < 2 ^ 53 \<longrightarrow>
      sum_list (map totalMinutes ?teams) = sum_list (map minutes js)"
  proof
    assume a: "(\<forall>j\<in>set js. 0 \<le> minutes j) \<and> sum_list (map minutes js) < 2 ^ 53"
    then have "sum_list (map totalMinutes ?teams) = sum_mset (image_mset minutes (mset (map entry_of js)))"
      using sum_totals_assemble [of js tc quant ?best] dist m by simp
    also have "\<dots> = sum_list (map minutes js)"
      by (simp add: image_mset.compositionality comp_def flip: sum_mset_sum_list)
    finally show "sum_list (map totalMinutes ?teams) = sum_list (map minutes js)" .
  qed
  have l: "length ?teams = tc" by simp
  from r l t m show ?thesis by blast
qed

theorem jobs_conserved_witness:
  "(0::nat) < 2
   \<and> solveOptimalWithFixed sample_fixed 2 10 = Inr sample_fixed_teams
   \<and> sum_list (map minutes sample_fixed) < 2 ^ 53
   \<and> sum_list (map totalMinutes sample_fixed_teams) = sum_list (map minutes sample_fixed)
   \<and> mset (concat (map jobs sample_fixed_teams)) = mset (map entry_of sample_fixed)"
proof -
  have p: "(0::nat) < 2" by simp
  have h: "solveOptimalWithFixed sample_fixed 2 10 = Inr sample_fixed_teams"
    by code_simp
  have nn: "\<forall>j\<in>set sample_fixed. 0 \<le> minutes j"
    by (simp add: sample_fixed_def)
  have b: "sum_list (map minutes sample_fixed) < 2 ^ 53"
    by (simp add: sample_fixed_def)
  from jobs_conserved [OF p, of sample_fixed 10] h p nn b show ?thesis
    by auto
qed

text \<open>
  Without the bound on the durations the totals can lose minutes, also for positive
  integer durations: with one team, the quantum 1 and the durations \<open>2^53\<close> and 1, the
  total of the team is \<open>2^53\<close>, one less than the sum of the durations (\<open>2^53 + 1\<close> is
  not a binary64 number).
\<close>

theorem jobs_conserved_counterexample:
  "solveOptimalWithFixed
     [\<lparr>name = ''a'', minutes = 9007199254740992, fixedTeam = 0\<rparr>, \<lparr>name = ''b'', minutes = 1, fixedTeam = 0\<rparr>] 1 1
   = Inr [\<lparr>jobs = [\<lparr>name = ''a'', minutes = 9007199254740992\<rparr>, \<lparr>name = ''b'', minutes = 1\<rparr>],
           totalMinutes = 9007199254740992\<rparr>]
   \<and> sum_list (map minutes
       [\<lparr>name = ''a'', minutes = 9007199254740992, fixedTeam = 0\<rparr>, \<lparr>name = ''b'', minutes = 1, fixedTeam = 0\<rparr>])
     = 9007199254740993"
proof -
  have "solveOptimalWithFixed
     [\<lparr>name = ''a'', minutes = 9007199254740992, fixedTeam = 0\<rparr>, \<lparr>name = ''b'', minutes = 1, fixedTeam = 0\<rparr>] 1 1
   = Inr [\<lparr>jobs = [\<lparr>name = ''a'', minutes = 9007199254740992\<rparr>, \<lparr>name = ''b'', minutes = 1\<rparr>],
           totalMinutes = 9007199254740992\<rparr>]"
    by code_simp
  then show ?thesis by simp
qed

















text \<open>
  C10. With an empty job list the solver does not fail: it returns exactly \<open>teamCount\<close>
  teams, each with an empty job list and a total of 0 minutes.
\<close>

theorem empty_job_list:
  "solveOptimalWithFixed [] tc quant = Inr (replicate tc \<lparr>jobs = [], totalMinutes = 0\<rparr>)"
proof (cases "tc = 0")
  case True
  then show ?thesis by (simp add: solveOptimalWithFixed_def)
next
  case False
  have best: "bestAssign (solution [] tc quant) = replicate tc []"
    by (simp add: solution_def dfs_no_items env_of_def items_in_Nil init_search_def greedy_Nil)
  have "assemble tc (partition_jobs tc []) (replicate tc []) = replicate tc \<lparr>jobs = [], totalMinutes = 0\<rparr>"
    by (rule nth_equalityI) (simp_all add: nth_assemble partition_jobs_Nil)
  with False best show ?thesis
    by (simp add: solveOptimalWithFixed_def)
qed

theorem empty_job_list_witness:
  "solveOptimalWithFixed [] 2 1 = Inr [\<lparr>jobs = [], totalMinutes = 0\<rparr>, \<lparr>jobs = [], totalMinutes = 0\<rparr>]"
  using empty_job_list [of 2 1] by (simp add: numeral_2_eq_2)

end
